theory Spec2Isabelle
  imports Main "HOL-Library.Word"
begin

section \<open>The bounded policy queue of messageQueue.hpp\<close>

text \<open>
  The header defines a capacity-bounded queue over a caller-supplied double-ended
  container, with two ordering strategies (FIFO, LIFO) that can be swapped at run time
  and a predicate-gated removal. Every public operation runs its body under the queue's
  mutex, so the effect of any execution on the queue is the effect of its bodies in
  some order; the model below is that sequential view: an operation takes the queue
  state and returns its outcome with the new state.
\<close>

subsection \<open>Mode\<close>

text \<open>
  \<^verbatim>\<open>enum class Mode { FIFO, LIFO };\<close> has the underlying type \<^verbatim>\<open>int\<close>, so a value of
  type Mode is any 32-bit integer; the two enumerators are 0 and 1.
\<close>

type_synonym Mode = "32 word"

definition FIFO :: Mode where
  "FIFO = 0"

definition LIFO :: Mode where
  "LIFO = 1"

subsection \<open>The backing buffer: DerivedQueue over a double-ended container\<close>

text \<open>
  The queue is constructed over any container type that satisfies \<^verbatim>\<open>ValidQueue\<close>; of the
  standard containers these are \<^verbatim>\<open>std::deque\<close> and \<^verbatim>\<open>std::list\<close>. \<^verbatim>\<open>front()\<close> and
  \<^verbatim>\<open>back()\<close> return references (\<^verbatim>\<open>Mtype&\<close>) to elements that live inside the container,
  and \<^verbatim>\<open>pop_front()\<close>/\<^verbatim>\<open>pop_back()\<close> destroy the element they remove. What a read through
  a reference finds after the removal depends on what the container does with the
  storage of the removed element, so the container type is part of the model:

  \<^item> \<open>Std_list\<close>: every element has a node of its own, and a removal frees the node.
  \<^item> \<open>Std_deque block owning\<close>: the elements lie in blocks of \<open>block\<close> consecutive slots
    (libstdc++: 512 bytes per block, hence 128 slots for \<^verbatim>\<open>int\<close> and 16 for
    \<^verbatim>\<open>std::string\<close>). \<^verbatim>\<open>pop_back()\<close> leaves the block of the removed element in place;
    \<^verbatim>\<open>pop_front()\<close> frees a block when it removes the element in the last slot of it.
    \<open>owning\<close> says that the messages own storage which their destructor releases
    (a \<^verbatim>\<open>std::string\<close> longer than its inline buffer of 15 characters); it is false for
    \<^verbatim>\<open>int\<close> and for enumerations.

  The live elements \<open>queue\<close> occupy the consecutive slots starting at \<open>first_slot\<close> (a
  container filled by \<^verbatim>\<open>push_back\<close> starts at slot 0), and a reference is the slot it
  points to. \<open>retained\<close> records, for a slot whose element has been destroyed, the value
  that a read of that slot still finds: the old value, as long as the storage of the
  slot is in place and the value owned no storage of its own. Reading a reference
  (\<open>deref\<close>) yields the element living in the slot, else what is retained there, and
  \<open>None\<close> when there is neither: the read goes to released storage. (The C++ standard
  leaves every read of a destroyed element undefined; the model follows what the
  storage holds, so that a read which does find the old value is told apart from one
  that does not.)
\<close>

type_synonym reference = nat

datatype QueueType = Std_deque nat bool | Std_list

record 'a DerivedQueue =
  queue_type :: QueueType
  first_slot :: nat
  queue :: "'a list"
  retained :: "reference \<Rightarrow> 'a option"

text \<open>The caller's container is given by its type and its contents.\<close>

definition DerivedQueue_ctor :: "QueueType \<times> 'a list \<Rightarrow> 'a DerivedQueue" where
  "DerivedQueue_ctor container =
     \<lparr>queue_type = fst container, first_slot = 0, queue = snd container,
      retained = Map.empty\<rparr>"

text \<open>
  What the removal of the element \<open>x\<close> in slot \<open>s\<close> leaves behind, at the front
  (\<open>at_front\<close>) or at the back.
\<close>

definition left_behind ::
  "QueueType \<Rightarrow> bool \<Rightarrow> reference \<Rightarrow> 'a \<Rightarrow> (reference \<Rightarrow> 'a option) \<Rightarrow> reference \<Rightarrow> 'a option" where
  "left_behind t at_front s x ret =
     (case t of
        Std_list \<Rightarrow> ret(s := None)
      | Std_deque block owning \<Rightarrow>
          if at_front \<and> Suc s mod block = 0
          then (\<lambda>r. if r div block = s div block then None else ret r)
          else if owning then ret(s := None)
          else ret(s := Some x))"

text \<open>Removal from an empty container is undefined in C++: \<open>None\<close>.\<close>

definition DerivedQueue_pop_front :: "'a DerivedQueue \<Rightarrow> 'a DerivedQueue option" where
  "DerivedQueue_pop_front d =
     (case queue d of
        [] \<Rightarrow> None
      | x # xs \<Rightarrow>
          Some (d\<lparr>first_slot := Suc (first_slot d), queue := xs,
                  retained := left_behind (queue_type d) True (first_slot d) x (retained d)\<rparr>))"

definition DerivedQueue_pop_back :: "'a DerivedQueue \<Rightarrow> 'a DerivedQueue option" where
  "DerivedQueue_pop_back d =
     (if queue d = [] then None
      else Some (d\<lparr>queue := butlast (queue d),
                   retained := left_behind (queue_type d) False
                     (first_slot d + length (queue d) - 1) (last (queue d)) (retained d)\<rparr>))"

definition DerivedQueue_push :: "'a \<Rightarrow> 'a DerivedQueue \<Rightarrow> 'a DerivedQueue" where
  "DerivedQueue_push msg d = d\<lparr>queue := queue d @ [msg]\<rparr>"

definition DerivedQueue_back :: "'a DerivedQueue \<Rightarrow> reference option" where
  "DerivedQueue_back d =
     (if queue d = [] then None else Some (first_slot d + length (queue d) - 1))"

definition DerivedQueue_front :: "'a DerivedQueue \<Rightarrow> reference option" where
  "DerivedQueue_front d = (if queue d = [] then None else Some (first_slot d))"

definition DerivedQueue_size :: "'a DerivedQueue \<Rightarrow> nat" where
  "DerivedQueue_size d = length (queue d)"

definition DerivedQueue_empty :: "'a DerivedQueue \<Rightarrow> bool" where
  "DerivedQueue_empty d = (queue d = [])"

definition deref :: "'a DerivedQueue \<Rightarrow> reference \<Rightarrow> 'a option" where
  "deref d r =
     (if first_slot d \<le> r \<and> r < first_slot d + length (queue d)
      then Some (queue d ! (r - first_slot d)) else retained d r)"

subsection \<open>The ordering strategy: QueueManipulatorFIFO and QueueManipulatorLIFO\<close>

datatype QueueManipulator = QueueManipulatorFIFO | QueueManipulatorLIFO

definition get_mode :: "QueueManipulator \<Rightarrow> Mode" where
  "get_mode man =
     (case man of QueueManipulatorFIFO \<Rightarrow> FIFO | QueueManipulatorLIFO \<Rightarrow> LIFO)"

definition QueueManipulator_pop ::
  "QueueManipulator \<Rightarrow> 'a DerivedQueue \<Rightarrow> 'a DerivedQueue option" where
  "QueueManipulator_pop man messq =
     (case man of
        QueueManipulatorFIFO \<Rightarrow> DerivedQueue_pop_front messq
      | QueueManipulatorLIFO \<Rightarrow> DerivedQueue_pop_back messq)"

definition QueueManipulator_get ::
  "QueueManipulator \<Rightarrow> 'a DerivedQueue \<Rightarrow> reference option" where
  "QueueManipulator_get man messq =
     (case man of
        QueueManipulatorFIFO \<Rightarrow> DerivedQueue_front messq
      | QueueManipulatorLIFO \<Rightarrow> DerivedQueue_back messq)"

text \<open>\<^verbatim>\<open>BaseQueueManipulator::push\<close> is not overridden: both strategies push at the tail.\<close>

definition QueueManipulator_push ::
  "QueueManipulator \<Rightarrow> 'a \<Rightarrow> 'a DerivedQueue \<Rightarrow> 'a DerivedQueue" where
  "QueueManipulator_push man msg messq = DerivedQueue_push msg messq"

subsection \<open>Semaphore and Synchronizer\<close>

text \<open>
  Modelled from the spec: \<^verbatim>\<open>sem::Semaphore\<close> and \<^verbatim>\<open>sync::Synchronizer\<close> come from
  synchronizer.hpp, which is not among the sources. The specification describes them as
  counting resources and a scoped guard: on entry the guard waits on (decrements) its
  entry resource, blocking while the count is zero, and takes the lock; on every exit it
  releases the lock and signals (increments) its exit resource. The queue constructs a
  semaphore from two numbers, \<^verbatim>\<open>count_full { max_size_, 0 }\<close> and
  \<^verbatim>\<open>count_empty { max_size_, max_size_ }\<close>, kept here as \<open>sem_limit\<close> and \<open>sem_count\<close>.
  In the sequential view a wait on a zero count does not return: \<open>None\<close>.
\<close>

record Semaphore =
  sem_limit :: nat
  sem_count :: nat

definition Semaphore_wait :: "Semaphore \<Rightarrow> Semaphore option" where
  "Semaphore_wait s =
     (if sem_count s = 0 then None else Some (s\<lparr>sem_count := sem_count s - 1\<rparr>))"

definition Semaphore_signal :: "Semaphore \<Rightarrow> Semaphore" where
  "Semaphore_signal s = s\<lparr>sem_count := sem_count s + 1\<rparr>"

subsection \<open>Queue\<close>

record 'a Queue =
  queue_manipulator :: QueueManipulator
  msg_queue :: "'a DerivedQueue"
  max_size :: nat
  count_full :: Semaphore
  count_empty :: Semaphore

text \<open>
  The constructor takes the container and an optional capacity (\<^verbatim>\<open>max_size_ = 1000\<close>
  when the argument is left out); the member initialiser of \<open>queue_manipulator\<close> is a
  \<^verbatim>\<open>QueueManipulatorLIFO\<close>.
\<close>

definition new_Queue :: "QueueType \<times> 'a list \<Rightarrow> nat option \<Rightarrow> 'a Queue" where
  "new_Queue container max_size_opt =
     (let n = (case max_size_opt of None \<Rightarrow> 1000 | Some k \<Rightarrow> k)
      in \<lparr>queue_manipulator = QueueManipulatorLIFO,
          msg_queue = DerivedQueue_ctor container,
          max_size = n,
          count_full = \<lparr>sem_limit = n, sem_count = 0\<rparr>,
          count_empty = \<lparr>sem_limit = n, sem_count = n\<rparr>\<rparr>)"

text \<open>
  How a call ends: it never gets past the guard's wait (\<open>Blocked\<close>), the caller's
  predicate raises (\<open>Threw\<close>), the body runs into undefined behaviour (\<open>Undefined\<close>),
  or it returns a value. A predicate is a function to \<open>exception + bool\<close>: it raises
  (\<open>Inl\<close>) or answers (\<open>Inr\<close>).
\<close>

datatype fault = Empty_Container_Access | Dangling_Reference

datatype exception = Exception string

datatype 'r outcome = Blocked | Threw exception | Undefined fault | Returned 'r

definition full :: "'a Queue \<Rightarrow> bool" where
  "full q = (DerivedQueue_size (msg_queue q) = max_size q)"

definition Queue_empty :: "'a Queue \<Rightarrow> bool" where
  "Queue_empty q = DerivedQueue_empty (msg_queue q)"

definition Queue_pop :: "'a Queue \<Rightarrow> 'a Queue option" where
  "Queue_pop q =
     (case QueueManipulator_pop (queue_manipulator q) (msg_queue q) of
        None \<Rightarrow> None
      | Some messq \<Rightarrow> Some (q\<lparr>msg_queue := messq\<rparr>))"

definition Queue_size :: "'a Queue \<Rightarrow> nat" where
  "Queue_size q = max_size q"

definition Queue_push :: "'a \<Rightarrow> 'a Queue \<Rightarrow> bool \<times> 'a Queue" where
  "Queue_push msg q =
     (if full q then (False, q)
      else (True,
            q\<lparr>msg_queue := QueueManipulator_push (queue_manipulator q) msg (msg_queue q)\<rparr>))"

text \<open>
  The body of \<^verbatim>\<open>dequeue_if\<close>, after the guard has admitted the call. \<open>m\<close> is the
  reference \<^verbatim>\<open>MType const& m\<close> bound to what \<open>front()\<close> or \<open>back()\<close> returns; the
  predicate reads the message through it; on acceptance \<^verbatim>\<open>pop()\<close> runs first and
  \<^verbatim>\<open>return { m };\<close> then copies the result out of the same reference: the call
  returns the message if that read still finds it, and has no defined result if the
  read goes to released storage.
\<close>

definition dequeue_if_admitted ::
  "('a \<Rightarrow> exception + bool) \<Rightarrow> 'a Queue \<Rightarrow> 'a option outcome \<times> 'a Queue" where
  "dequeue_if_admitted pred q =
     (if DerivedQueue_empty (msg_queue q) then (Returned None, q)
      else
        case QueueManipulator_get (queue_manipulator q) (msg_queue q) of
          None \<Rightarrow> (Undefined Empty_Container_Access, q)
        | Some m \<Rightarrow>
            (case deref (msg_queue q) m of
               None \<Rightarrow> (Undefined Dangling_Reference, q)
             | Some v \<Rightarrow>
                 (case pred v of
                    Inl e \<Rightarrow> (Threw e, q)
                  | Inr False \<Rightarrow> (Returned None, q)
                  | Inr True \<Rightarrow>
                      (case Queue_pop q of
                         None \<Rightarrow> (Undefined Empty_Container_Access, q)
                       | Some q' \<Rightarrow>
                           (case deref (msg_queue q') m of
                              None \<Rightarrow> (Undefined Dangling_Reference, q')
                            | Some v' \<Rightarrow> (Returned (Some v'), q'))))))"

text \<open>
  \<^verbatim>\<open>sync::Synchronizer s { count_full, count_empty, mutex };\<close> waits on \<open>count_full\<close>
  before the body and signals \<open>count_empty\<close> when the scope is left, on every path.
\<close>

definition dequeue_if ::
  "('a \<Rightarrow> exception + bool) \<Rightarrow> 'a Queue \<Rightarrow> 'a option outcome \<times> 'a Queue" where
  "dequeue_if pred q =
     (case Semaphore_wait (count_full q) of
        None \<Rightarrow> (Blocked, q)
      | Some s \<Rightarrow>
          (case dequeue_if_admitted pred (q\<lparr>count_full := s\<rparr>) of
             (r, q') \<Rightarrow> (r, q'\<lparr>count_empty := Semaphore_signal (count_empty q')\<rparr>)))"

definition enqueue :: "'a \<Rightarrow> 'a Queue \<Rightarrow> bool outcome \<times> 'a Queue" where
  "enqueue msg q =
     (case Semaphore_wait (count_empty q) of
        None \<Rightarrow> (Blocked, q)
      | Some s \<Rightarrow>
          (case Queue_push msg (q\<lparr>count_empty := s\<rparr>) of
             (r, q') \<Rightarrow> (Returned r, q'\<lparr>count_full := Semaphore_signal (count_full q')\<rparr>)))"

definition set_mode :: "Mode \<Rightarrow> 'a Queue \<Rightarrow> 'a Queue" where
  "set_mode new_mode q =
     (if new_mode = FIFO then q\<lparr>queue_manipulator := QueueManipulatorFIFO\<rparr>
      else if new_mode = LIFO then q\<lparr>queue_manipulator := QueueManipulatorLIFO\<rparr>
      else q)"

definition mode :: "'a Queue \<Rightarrow> Mode" where
  "mode q = get_mode (queue_manipulator q)"

subsection \<open>Sequences of calls\<close>

text \<open>
  A caller's sequence of \<open>enqueue\<close> and \<open>dequeue_if\<close> calls. A call that blocks leaves
  the queue as it is; \<open>states\<close> lists the queue before the first call and after each
  call, \<open>results\<close> lists what the calls return.
\<close>

datatype 'a call = Enqueue 'a | Dequeue_if "'a \<Rightarrow> exception + bool"

datatype 'a result = Enqueued "bool outcome" | Dequeued "'a option outcome"

definition do_call :: "'a call \<Rightarrow> 'a Queue \<Rightarrow> 'a result \<times> 'a Queue" where
  "do_call c q =
     (case c of
        Enqueue msg \<Rightarrow> (case enqueue msg q of (r, q') \<Rightarrow> (Enqueued r, q'))
      | Dequeue_if pred \<Rightarrow> (case dequeue_if pred q of (r, q') \<Rightarrow> (Dequeued r, q')))"

fun states :: "'a Queue \<Rightarrow> 'a call list \<Rightarrow> 'a Queue list" where
  "states q [] = [q]"
| "states q (c # cs) = q # states (snd (do_call c q)) cs"

fun results :: "'a Queue \<Rightarrow> 'a call list \<Rightarrow> 'a result list" where
  "results q [] = []"
| "results q (c # cs) = fst (do_call c q) # results (snd (do_call c q)) cs"

fun run :: "'a Queue \<Rightarrow> 'a call list \<Rightarrow> 'a Queue" where
  "run q [] = q"
| "run q (c # cs) = run (snd (do_call c q)) cs"

text \<open>
  Predicates used in the examples: two constant ones, and one that raises on a given
  message.
\<close>

definition always_true :: "'a \<Rightarrow> exception + bool" where
  "always_true m = Inr True"

definition always_false :: "'a \<Rightarrow> exception + bool" where
  "always_false m = Inr False"

definition raises_on :: "'a \<Rightarrow> 'a \<Rightarrow> exception + bool" where
  "raises_on bad m = (if m = bad then Inl (Exception ''rejected'') else Inr True)"

text \<open>
  Messages used in the examples: three strings of 48 characters, longer than the inline
  buffer of a \<^verbatim>\<open>std::string\<close>, so that each owns its characters.
\<close>

definition first_message :: string where
  "first_message = ''first message, forty-eight characters in all....''"

definition second_message :: string where
  "second_message = ''second message, forty-eight characters in all...''"

definition third_message :: string where
  "third_message = ''third message, forty-eight characters in all....''"

subsection \<open>The specification's vocabulary\<close>

text \<open>
  The specification speaks of the next-visible message, selected by the peek rule of the
  active strategy: the head of the buffer in oldest-first mode, the tail in
  most-recent-first mode. \<open>next_visible\<close> follows these words (it is meant for a
  non-empty buffer), and \<open>removed_next\<close> is the buffer without that message.
\<close>

definition next_visible :: "'a Queue \<Rightarrow> 'a" where
  "next_visible q =
     (case queue_manipulator q of
        QueueManipulatorFIFO \<Rightarrow> hd (queue (msg_queue q))
      | QueueManipulatorLIFO \<Rightarrow> last (queue (msg_queue q)))"

definition removed_next :: "'a Queue \<Rightarrow> 'a list" where
  "removed_next q =
     (case queue_manipulator q of
        QueueManipulatorFIFO \<Rightarrow> tl (queue (msg_queue q))
      | QueueManipulatorLIFO \<Rightarrow> butlast (queue (msg_queue q)))"

text \<open>
  \<open>reads_back q\<close>: a read through the reference to the next-visible message of \<open>q\<close> still
  finds that message after \<open>pop()\<close> has removed it. By \<open>left_behind\<close> this is so in a
  \<^verbatim>\<open>std::deque\<close> of messages that own no storage, unless the removal is a \<^verbatim>\<open>pop_front()\<close>
  of the last slot of a block.
\<close>

definition reads_back :: "'a Queue \<Rightarrow> bool" where
  "reads_back q =
     (case queue_type (msg_queue q) of
        Std_list \<Rightarrow> False
      | Std_deque block owning \<Rightarrow>
          if owning then False
          else if queue_manipulator q = QueueManipulatorFIFO \<and>
                  Suc (first_slot (msg_queue q)) mod block = 0 then False
          else True)"

text \<open>
  An invariant of the two counters: \<open>count_full\<close> does not exceed the number of
  buffered messages, and the two counts add up to the capacity.
\<close>

definition counters_ok :: "'a Queue \<Rightarrow> bool" where
  "counters_ok q =
     (sem_count (count_full q) \<le> length (queue (msg_queue q)) \<and>
      sem_count (count_full q) + sem_count (count_empty q) = max_size q)"

section \<open>Properties\<close>

lemmas container_defs =
  DerivedQueue_ctor_def DerivedQueue_pop_front_def DerivedQueue_pop_back_def
  DerivedQueue_push_def DerivedQueue_back_def DerivedQueue_front_def
  DerivedQueue_size_def DerivedQueue_empty_def deref_def

subsection \<open>References into the container\<close>

lemma get_front_nonempty:
  "queue d \<noteq> [] \<Longrightarrow>
   DerivedQueue_front d = Some (first_slot d) \<and>
   deref d (first_slot d) = Some (hd (queue d))"
  by (simp add: container_defs hd_conv_nth)

lemma get_back_nonempty:
  "queue d \<noteq> [] \<Longrightarrow>
   DerivedQueue_back d = Some (first_slot d + length (queue d) - 1) \<and>
   deref d (first_slot d + length (queue d) - 1) = Some (last (queue d))"
  by (cases "queue d") (simp_all add: container_defs last_conv_nth)

text \<open>On a non-empty buffer the strategy's \<open>get\<close> refers to the next-visible message.\<close>

lemma get_next_visible:
  assumes "queue (msg_queue q) \<noteq> []"
  shows "\<exists>m. QueueManipulator_get (queue_manipulator q) (msg_queue q) = Some m \<and>
             deref (msg_queue q) m = Some (next_visible q)"
  using assms get_front_nonempty [of "msg_queue q"] get_back_nonempty [of "msg_queue q"]
  by (cases "queue_manipulator q") (simp_all add: QueueManipulator_get_def next_visible_def)

text \<open>
  \<open>pop()\<close> removes exactly the element that \<open>get\<close> referred to; what a read through the
  reference finds afterwards is the message where \<open>reads_back\<close> holds and nothing
  otherwise.
\<close>

lemma pop_then_read:
  assumes "queue (msg_queue q) \<noteq> []"
    and "QueueManipulator_get (queue_manipulator q) (msg_queue q) = Some m"
  shows "\<exists>q'. Queue_pop q = Some q' \<and>
              deref (msg_queue q') m = (if reads_back q then Some (next_visible q) else None) \<and>
              queue (msg_queue q') = removed_next q \<and>
              first_slot (msg_queue q') =
                first_slot (msg_queue q) +
                (if queue_manipulator q = QueueManipulatorFIFO then 1 else 0) \<and>
              queue_type (msg_queue q') = queue_type (msg_queue q) \<and>
              queue_manipulator q' = queue_manipulator q \<and> max_size q' = max_size q \<and>
              count_full q' = count_full q \<and> count_empty q' = count_empty q"
proof (cases "queue_manipulator q")
  case QueueManipulatorFIFO
  let ?d = "msg_queue q"
  let ?q' = "q\<lparr>msg_queue := ?d\<lparr>first_slot := Suc (first_slot ?d), queue := tl (queue ?d),
               retained := left_behind (queue_type ?d) True (first_slot ?d) (hd (queue ?d))
                 (retained ?d)\<rparr>\<rparr>"
  have m: "m = first_slot ?d"
    using assms QueueManipulatorFIFO by (simp add: QueueManipulator_get_def container_defs)
  have "Queue_pop q = Some ?q'"
    using assms QueueManipulatorFIFO
    by (simp add: Queue_pop_def QueueManipulator_pop_def container_defs split: list.splits)
  moreover have "deref (msg_queue ?q') m = (if reads_back q then Some (next_visible q) else None)"
    using QueueManipulatorFIFO
    by (simp add: m deref_def left_behind_def reads_back_def next_visible_def
        split: QueueType.splits)
  moreover have "queue (msg_queue ?q') = removed_next q"
    using QueueManipulatorFIFO by (simp add: removed_next_def)
  ultimately show ?thesis
    using QueueManipulatorFIFO by (intro exI [of _ ?q']) simp
next
  case QueueManipulatorLIFO
  let ?d = "msg_queue q"
  let ?q' = "q\<lparr>msg_queue := ?d\<lparr>queue := butlast (queue ?d),
               retained := left_behind (queue_type ?d) False
                 (first_slot ?d + length (queue ?d) - 1) (last (queue ?d)) (retained ?d)\<rparr>\<rparr>"
  have m: "m = first_slot ?d + length (queue ?d) - 1"
    using assms QueueManipulatorLIFO by (simp add: QueueManipulator_get_def container_defs)
  have "Queue_pop q = Some ?q'"
    using assms QueueManipulatorLIFO
    by (simp add: Queue_pop_def QueueManipulator_pop_def container_defs)
  moreover have "deref (msg_queue ?q') m = (if reads_back q then Some (next_visible q) else None)"
    using assms(1) QueueManipulatorLIFO
    by (auto simp: m deref_def left_behind_def reads_back_def next_visible_def
        split: QueueType.splits)
  moreover have "queue (msg_queue ?q') = removed_next q"
    using QueueManipulatorLIFO by (simp add: removed_next_def)
  ultimately show ?thesis
    using QueueManipulatorLIFO by (intro exI [of _ ?q']) simp
qed

subsection \<open>The body of dequeue\_if, case by case\<close>

lemma dequeue_if_admitted_empty:
  "queue (msg_queue q) = [] \<Longrightarrow> dequeue_if_admitted pred q = (Returned None, q)"
  by (simp add: dequeue_if_admitted_def DerivedQueue_empty_def)

lemma dequeue_if_admitted_threw:
  assumes "queue (msg_queue q) \<noteq> []" and "pred (next_visible q) = Inl e"
  shows "dequeue_if_admitted pred q = (Threw e, q)"
  using assms get_next_visible [OF assms(1)]
  by (auto simp: dequeue_if_admitted_def DerivedQueue_empty_def)

lemma dequeue_if_admitted_reject:
  assumes "queue (msg_queue q) \<noteq> []" and "pred (next_visible q) = Inr False"
  shows "dequeue_if_admitted pred q = (Returned None, q)"
  using assms get_next_visible [OF assms(1)]
  by (auto simp: dequeue_if_admitted_def DerivedQueue_empty_def)

text \<open>
  When the predicate accepts, the next-visible message is removed, and the value to
  return is read through the reference after the removal.
\<close>

lemma dequeue_if_admitted_accept:
  assumes "queue (msg_queue q) \<noteq> []" and "pred (next_visible q) = Inr True"
  shows "\<exists>q'. dequeue_if_admitted pred q =
                (if reads_back q then Returned (Some (next_visible q))
                 else Undefined Dangling_Reference, q') \<and>
              queue (msg_queue q') = removed_next q \<and>
              first_slot (msg_queue q') =
                first_slot (msg_queue q) +
                (if queue_manipulator q = QueueManipulatorFIFO then 1 else 0) \<and>
              queue_type (msg_queue q') = queue_type (msg_queue q) \<and>
              queue_manipulator q' = queue_manipulator q \<and> max_size q' = max_size q \<and>
              count_full q' = count_full q \<and> count_empty q' = count_empty q"
proof -
  from get_next_visible [OF assms(1)] obtain m where
    m: "QueueManipulator_get (queue_manipulator q) (msg_queue q) = Some m"
       "deref (msg_queue q) m = Some (next_visible q)" by blast
  from pop_then_read [OF assms(1) m(1)] obtain q' where
    q': "Queue_pop q = Some q'"
      "deref (msg_queue q') m = (if reads_back q then Some (next_visible q) else None)"
      "queue (msg_queue q') = removed_next q"
      "first_slot (msg_queue q') =
         first_slot (msg_queue q) + (if queue_manipulator q = QueueManipulatorFIFO then 1 else 0)"
      "queue_type (msg_queue q') = queue_type (msg_queue q)"
      "queue_manipulator q' = queue_manipulator q" "max_size q' = max_size q"
      "count_full q' = count_full q" "count_empty q' = count_empty q" by blast
  have "dequeue_if_admitted pred q =
          (if reads_back q then Returned (Some (next_visible q))
           else Undefined Dangling_Reference, q')"
    using assms m q' by (simp add: dequeue_if_admitted_def DerivedQueue_empty_def)
  with q' show ?thesis by blast
qed

text \<open>
  Whatever the predicate does, the body leaves container type, strategy, capacity and
  counters alone, never lengthens the buffer and never touches an empty container.
\<close>

lemma dequeue_if_admitted_frame:
  "queue_manipulator (snd (dequeue_if_admitted pred q)) = queue_manipulator q \<and>
   max_size (snd (dequeue_if_admitted pred q)) = max_size q \<and>
   count_full (snd (dequeue_if_admitted pred q)) = count_full q \<and>
   count_empty (snd (dequeue_if_admitted pred q)) = count_empty q \<and>
   length (queue (msg_queue (snd (dequeue_if_admitted pred q)))) \<le> length (queue (msg_queue q)) \<and>
   fst (dequeue_if_admitted pred q) \<noteq> Undefined Empty_Container_Access"
proof (cases "queue (msg_queue q) = []")
  case True
  then show ?thesis by (simp add: dequeue_if_admitted_empty)
next
  case False
  show ?thesis
  proof (cases "pred (next_visible q)")
    case (Inl e)
    then show ?thesis using False by (simp add: dequeue_if_admitted_threw)
  next
    case (Inr b)
    show ?thesis
    proof (cases b)
      case True
      with Inr dequeue_if_admitted_accept [OF False, of pred] obtain q' where
        "dequeue_if_admitted pred q =
           (if reads_back q then Returned (Some (next_visible q))
            else Undefined Dangling_Reference, q')"
        "queue (msg_queue q') = removed_next q"
        "queue_manipulator q' = queue_manipulator q" "max_size q' = max_size q"
        "count_full q' = count_full q" "count_empty q' = count_empty q" by auto
      then show ?thesis
        by (cases "queue_manipulator q") (simp_all add: removed_next_def)
    next
      case False
      with Inr \<open>queue (msg_queue q) \<noteq> []\<close> show ?thesis
        by (simp add: dequeue_if_admitted_reject)
    qed
  qed
qed

lemma dequeue_if_admitted_queue_type:
  "queue_type (msg_queue (snd (dequeue_if_admitted pred q))) = queue_type (msg_queue q)"
proof (cases "queue (msg_queue q) = []")
  case True
  then show ?thesis by (simp add: dequeue_if_admitted_empty)
next
  case False
  show ?thesis
  proof (cases "pred (next_visible q)")
    case (Inl e)
    then show ?thesis using False by (simp add: dequeue_if_admitted_threw)
  next
    case (Inr b)
    show ?thesis
    proof (cases b)
      case True
      with Inr dequeue_if_admitted_accept [OF False, of pred] show ?thesis by auto
    next
      case False
      with Inr \<open>queue (msg_queue q) \<noteq> []\<close> show ?thesis
        by (simp add: dequeue_if_admitted_reject)
    qed
  qed
qed

lemma dequeue_if_admitted_removes_at_most_one:
  "length (queue (msg_queue q)) \<le> Suc (length (queue (msg_queue (snd (dequeue_if_admitted pred q)))))"
proof (cases "queue (msg_queue q) = []")
  case True
  then show ?thesis by simp
next
  case False
  show ?thesis
  proof (cases "pred (next_visible q)")
    case (Inl e)
    then show ?thesis using False by (simp add: dequeue_if_admitted_threw)
  next
    case (Inr b)
    show ?thesis
    proof (cases b)
      case True
      with Inr dequeue_if_admitted_accept [OF False, of pred] obtain q' where
        "snd (dequeue_if_admitted pred q) = q'"
        "queue (msg_queue q') = removed_next q" by auto
      then show ?thesis
        by (cases "queue_manipulator q") (simp_all add: removed_next_def)
    next
      case False
      with Inr \<open>queue (msg_queue q) \<noteq> []\<close> show ?thesis
        by (simp add: dequeue_if_admitted_reject)
    qed
  qed
qed

subsection \<open>The guarded operations\<close>

lemma dequeue_if_blocked:
  "Semaphore_wait (count_full q) = None \<Longrightarrow> dequeue_if pred q = (Blocked, q)"
  by (simp add: dequeue_if_def)

lemma dequeue_if_unfold:
  "Semaphore_wait (count_full q) = Some s \<Longrightarrow>
   dequeue_if pred q =
     (fst (dequeue_if_admitted pred (q\<lparr>count_full := s\<rparr>)),
      (snd (dequeue_if_admitted pred (q\<lparr>count_full := s\<rparr>)))
        \<lparr>count_empty :=
           Semaphore_signal (count_empty (snd (dequeue_if_admitted pred (q\<lparr>count_full := s\<rparr>))))\<rparr>)"
  by (simp add: dequeue_if_def split: prod.splits)

lemma dequeue_if_frame:
  "queue_manipulator (snd (dequeue_if pred q)) = queue_manipulator q \<and>
   max_size (snd (dequeue_if pred q)) = max_size q \<and>
   length (queue (msg_queue (snd (dequeue_if pred q)))) \<le> length (queue (msg_queue q)) \<and>
   fst (dequeue_if pred q) \<noteq> Undefined Empty_Container_Access"
proof (cases "Semaphore_wait (count_full q)")
  case None
  then show ?thesis by (simp add: dequeue_if_blocked)
next
  case (Some s)
  then show ?thesis
    using dequeue_if_admitted_frame [of "pred" "q\<lparr>count_full := s\<rparr>"]
    by (simp add: dequeue_if_unfold)
qed

lemma Queue_push_effect:
  "Queue_push msg q =
     (if length (queue (msg_queue q)) = max_size q then (False, q)
      else (True, q\<lparr>msg_queue := (msg_queue q)\<lparr>queue := queue (msg_queue q) @ [msg]\<rparr>\<rparr>))"
  by (simp add: Queue_push_def full_def QueueManipulator_push_def container_defs)

lemma enqueue_frame:
  "queue_manipulator (snd (enqueue msg q)) = queue_manipulator q \<and>
   max_size (snd (enqueue msg q)) = max_size q"
  by (simp add: enqueue_def Queue_push_effect split: option.splits)

lemma enqueue_occupancy:
  "length (queue (msg_queue q)) \<le> max_size q \<Longrightarrow>
   length (queue (msg_queue (snd (enqueue msg q)))) \<le> max_size q"
  by (simp add: enqueue_def Queue_push_effect split: option.splits)

lemma enqueue_blocked:
  "Semaphore_wait (count_empty q) = None \<Longrightarrow> enqueue msg q = (Blocked, q)"
  by (simp add: enqueue_def)

lemma enqueue_on_full:
  assumes "Semaphore_wait (count_empty q) \<noteq> None" and "full q"
  shows "fst (enqueue msg q) = Returned False \<and>
         msg_queue (snd (enqueue msg q)) = msg_queue q"
proof -
  from assms(1) obtain s where s: "Semaphore_wait (count_empty q) = Some s" by auto
  have "full (q\<lparr>count_empty := s\<rparr>)"
    using assms(2) by (simp add: full_def)
  with s show ?thesis by (simp add: enqueue_def Queue_push_def)
qed

lemma dequeue_if_on_empty:
  assumes "Semaphore_wait (count_full q) \<noteq> None" and "Queue_empty q"
  shows "fst (dequeue_if pred q) = Returned None \<and>
         msg_queue (snd (dequeue_if pred q)) = msg_queue q"
proof -
  from assms(1) obtain s where s: "Semaphore_wait (count_full q) = Some s" by auto
  have e: "queue (msg_queue (q\<lparr>count_full := s\<rparr>)) = []"
    using assms(2) by (simp add: Queue_empty_def DerivedQueue_empty_def)
  show ?thesis
    using s dequeue_if_admitted_empty [OF e, of pred] by (simp add: dequeue_if_unfold)
qed

text \<open>
  An admitted \<open>dequeue_if\<close> on a non-empty buffer: a rejected message stays where it is;
  an accepted message is removed, and the value returned is read after the removal.
\<close>

lemma dequeue_if_rejects:
  assumes "Semaphore_wait (count_full q) \<noteq> None"
    and "\<not> Queue_empty q"
    and "pred (next_visible q) = Inr False"
  shows "fst (dequeue_if pred q) = Returned None \<and>
         msg_queue (snd (dequeue_if pred q)) = msg_queue q"
proof -
  from assms(1) obtain s where s: "Semaphore_wait (count_full q) = Some s" by auto
  let ?q = "q\<lparr>count_full := s\<rparr>"
  have ne: "queue (msg_queue ?q) \<noteq> []"
    using assms(2) by (simp add: Queue_empty_def DerivedQueue_empty_def)
  have "next_visible ?q = next_visible q"
    by (simp add: next_visible_def split: QueueManipulator.splits)
  with assms(3) have "dequeue_if_admitted pred ?q = (Returned None, ?q)"
    using dequeue_if_admitted_reject [OF ne, of pred] by simp
  with s show ?thesis by (simp add: dequeue_if_def)
qed

lemma dequeue_if_accepts:
  assumes "Semaphore_wait (count_full q) \<noteq> None"
    and "\<not> Queue_empty q"
    and "pred (next_visible q) = Inr True"
  shows "fst (dequeue_if pred q) =
           (if reads_back q then Returned (Some (next_visible q))
            else Undefined Dangling_Reference) \<and>
         queue (msg_queue (snd (dequeue_if pred q))) = removed_next q \<and>
         first_slot (msg_queue (snd (dequeue_if pred q))) =
           first_slot (msg_queue q) +
           (if queue_manipulator q = QueueManipulatorFIFO then 1 else 0)"
proof -
  from assms(1) obtain s where s: "Semaphore_wait (count_full q) = Some s" by auto
  let ?q = "q\<lparr>count_full := s\<rparr>"
  have ne: "queue (msg_queue ?q) \<noteq> []"
    using assms(2) by (simp add: Queue_empty_def DerivedQueue_empty_def)
  have nv: "next_visible ?q = next_visible q"
    by (simp add: next_visible_def split: QueueManipulator.splits)
  have rn: "removed_next ?q = removed_next q"
    by (simp add: removed_next_def split: QueueManipulator.splits)
  have rb: "reads_back ?q = reads_back q"
    by (simp add: reads_back_def split: QueueType.splits)
  from dequeue_if_admitted_accept [OF ne, of pred] assms(3) nv obtain q' where
    "dequeue_if_admitted pred ?q =
       (if reads_back ?q then Returned (Some (next_visible ?q))
        else Undefined Dangling_Reference, q')"
    "queue (msg_queue q') = removed_next ?q"
    "first_slot (msg_queue q') =
       first_slot (msg_queue ?q) + (if queue_manipulator ?q = QueueManipulatorFIFO then 1 else 0)"
    by auto
  with s nv rn rb show ?thesis by (simp add: dequeue_if_def)
qed

lemma dequeue_if_queue_type:
  "queue_type (msg_queue (snd (dequeue_if pred q))) = queue_type (msg_queue q)"
proof (cases "Semaphore_wait (count_full q)")
  case None
  then show ?thesis by (simp add: dequeue_if_blocked)
next
  case (Some s)
  then show ?thesis
    using dequeue_if_admitted_queue_type [of pred "q\<lparr>count_full := s\<rparr>"]
    by (simp add: dequeue_if_unfold)
qed

lemma enqueue_queue_type:
  "queue_type (msg_queue (snd (enqueue msg q))) = queue_type (msg_queue q)"
  by (simp add: enqueue_def Queue_push_effect split: option.splits)

text \<open>A predicate that rejects everything never changes the buffer.\<close>

lemma dequeue_if_always_false_keeps_buffer:
  "msg_queue (snd (dequeue_if always_false q)) = msg_queue q"
proof (cases "Semaphore_wait (count_full q)")
  case None
  then show ?thesis by (simp add: dequeue_if_blocked)
next
  case (Some s)
  show ?thesis
  proof (cases "Queue_empty q")
    case True
    with Some dequeue_if_on_empty [of q always_false] show ?thesis by simp
  next
    case False
    with Some dequeue_if_rejects [of q always_false] show ?thesis
      by (simp add: always_false_def)
  qed
qed

subsection \<open>Sequences of calls\<close>

lemma do_call_Enqueue:
  "do_call (Enqueue msg) q = (Enqueued (fst (enqueue msg q)), snd (enqueue msg q))"
  by (simp add: do_call_def split: prod.splits)

lemma do_call_Dequeue_if:
  "do_call (Dequeue_if pred) q = (Dequeued (fst (dequeue_if pred q)), snd (dequeue_if pred q))"
  by (simp add: do_call_def split: prod.splits)

lemma do_call_frame:
  "queue_manipulator (snd (do_call c q)) = queue_manipulator q \<and>
   max_size (snd (do_call c q)) = max_size q \<and>
   fst (do_call c q) \<noteq> Dequeued (Undefined Empty_Container_Access)"
  by (cases c) (simp_all add: do_call_Enqueue do_call_Dequeue_if enqueue_frame dequeue_if_frame)

lemma do_call_occupancy:
  assumes "length (queue (msg_queue q)) \<le> max_size q"
  shows "length (queue (msg_queue (snd (do_call c q)))) \<le> max_size q"
proof (cases c)
  case (Enqueue msg)
  then show ?thesis using enqueue_occupancy [OF assms] by (simp add: do_call_Enqueue)
next
  case (Dequeue_if pred)
  then show ?thesis using dequeue_if_frame [of pred q] assms by (simp add: do_call_Dequeue_if)
qed

lemma states_occupancy:
  "length (queue (msg_queue q)) \<le> max_size q \<Longrightarrow> s \<in> set (states q calls) \<Longrightarrow>
   length (queue (msg_queue s)) \<le> max_size q"
proof (induction calls arbitrary: q)
  case Nil
  then show ?case by simp
next
  case (Cons c cs)
  from Cons.prems(2) consider "s = q" | "s \<in> set (states (snd (do_call c q)) cs)" by auto
  then show ?case
  proof cases
    case 1
    with Cons.prems(1) show ?thesis by simp
  next
    case 2
    have "length (queue (msg_queue (snd (do_call c q)))) \<le> max_size (snd (do_call c q))"
      using do_call_occupancy [OF Cons.prems(1)] do_call_frame [of c q] by simp
    from Cons.IH [OF this 2] show ?thesis using do_call_frame [of c q] by simp
  qed
qed

lemma results_no_empty_access:
  "Dequeued (Undefined Empty_Container_Access) \<notin> set (results q calls)"
proof (induction calls arbitrary: q)
  case Nil
  then show ?case by simp
next
  case (Cons c cs)
  have "Dequeued (Undefined Empty_Container_Access) \<noteq> fst (do_call c q)"
    using do_call_frame [of c q] by auto
  with Cons.IH show ?case by simp
qed

lemma run_frame:
  "queue_manipulator (run q calls) = queue_manipulator q \<and> max_size (run q calls) = max_size q"
  by (induction calls arbitrary: q) (simp_all add: do_call_frame)

subsection \<open>The counters\<close>

text \<open>
  In every run from a new queue \<open>count_full\<close> stays at or below the occupancy, so a
  \<open>dequeue_if\<close> that gets past its wait finds a message; \<open>count_empty\<close> can exceed the
  free capacity, because a \<open>dequeue_if\<close> that removes nothing signals it all the same.
\<close>

lemma counters_ok_new: "counters_ok (new_Queue container max_size_opt)"
  by (simp add: counters_ok_def new_Queue_def Let_def)

lemma counters_ok_enqueue: "counters_ok q \<Longrightarrow> counters_ok (snd (enqueue msg q))"
  by (auto simp: counters_ok_def enqueue_def Queue_push_effect Semaphore_wait_def
      Semaphore_signal_def split: option.splits if_splits)

lemma counters_ok_dequeue_if:
  assumes "counters_ok q"
  shows "counters_ok (snd (dequeue_if pred q))"
proof (cases "Semaphore_wait (count_full q)")
  case None
  with assms show ?thesis by (simp add: dequeue_if_blocked)
next
  case (Some s)
  let ?q = "q\<lparr>count_full := s\<rparr>"
  have s: "sem_count (count_full q) = Suc (sem_count s)"
    using Some by (auto simp: Semaphore_wait_def split: if_splits)
  from dequeue_if_admitted_frame [of pred ?q] dequeue_if_admitted_removes_at_most_one [of ?q pred]
  show ?thesis
    using assms Some s
    by (simp add: dequeue_if_unfold counters_ok_def Semaphore_signal_def)
qed

lemma counters_ok_run: "counters_ok q \<Longrightarrow> counters_ok (run q calls)"
proof (induction calls arbitrary: q)
  case Nil
  then show ?case by simp
next
  case (Cons c cs)
  have "counters_ok (snd (do_call c q))"
    using Cons.prems
    by (cases c) (simp_all add: do_call_Enqueue do_call_Dequeue_if counters_ok_enqueue
        counters_ok_dequeue_if)
  with Cons.IH show ?case by simp
qed

lemma admitted_dequeue_if_finds_message:
  assumes "Semaphore_wait (count_full (run (new_Queue container max_size_opt) calls)) \<noteq> None"
  shows "\<not> Queue_empty (run (new_Queue container max_size_opt) calls)"
proof -
  have "counters_ok (run (new_Queue container max_size_opt) calls)"
    by (rule counters_ok_run [OF counters_ok_new])
  with assms show ?thesis
    by (auto simp: counters_ok_def Semaphore_wait_def Queue_empty_def DerivedQueue_empty_def
        split: if_splits)
qed

subsection \<open>Order of removal\<close>

text \<open>
  Enqueues that find a free slot append at the tail; accepting \<open>dequeue_if\<close> calls take
  the buffer apart from the head in FIFO mode and from the tail in LIFO mode. What each
  accepting call hands back is the read through the reference after the removal.
\<close>

lemma enqueue_free_slot:
  assumes "0 < sem_count (count_empty q)" and "length (queue (msg_queue q)) < max_size q"
  shows "enqueue msg q =
           (Returned True,
            q\<lparr>count_empty := (count_empty q)\<lparr>sem_count := sem_count (count_empty q) - 1\<rparr>,
              msg_queue := (msg_queue q)\<lparr>queue := queue (msg_queue q) @ [msg]\<rparr>,
              count_full := (count_full q)\<lparr>sem_count := sem_count (count_full q) + 1\<rparr>\<rparr>)"
  using assms
  by (simp add: enqueue_def Queue_push_effect Semaphore_wait_def Semaphore_signal_def)

lemma run_enqueues:
  assumes "length ms \<le> sem_count (count_empty q)"
    and "length (queue (msg_queue q)) + length ms \<le> max_size q"
  shows "queue (msg_queue (run q (map Enqueue ms))) = queue (msg_queue q) @ ms \<and>
         results q (map Enqueue ms) = replicate (length ms) (Enqueued (Returned True)) \<and>
         sem_count (count_full (run q (map Enqueue ms))) = sem_count (count_full q) + length ms \<and>
         queue_manipulator (run q (map Enqueue ms)) = queue_manipulator q \<and>
         queue_type (msg_queue (run q (map Enqueue ms))) = queue_type (msg_queue q) \<and>
         first_slot (msg_queue (run q (map Enqueue ms))) = first_slot (msg_queue q)"
  using assms
proof (induction ms arbitrary: q)
  case Nil
  then show ?case by simp
next
  case (Cons m ms)
  let ?q' = "snd (enqueue m q)"
  have e: "enqueue m q =
           (Returned True,
            q\<lparr>count_empty := (count_empty q)\<lparr>sem_count := sem_count (count_empty q) - 1\<rparr>,
              msg_queue := (msg_queue q)\<lparr>queue := queue (msg_queue q) @ [m]\<rparr>,
              count_full := (count_full q)\<lparr>sem_count := sem_count (count_full q) + 1\<rparr>\<rparr>)"
    using Cons.prems by (intro enqueue_free_slot) simp_all
  have "length ms \<le> sem_count (count_empty ?q')"
    and "length (queue (msg_queue ?q')) + length ms \<le> max_size ?q'"
    using Cons.prems by (simp_all add: e)
  from Cons.IH [OF this] show ?case
    by (simp add: do_call_Enqueue e)
qed

lemma dequeue_if_counters:
  assumes "Semaphore_wait (count_full q) = Some s"
  shows "count_full (snd (dequeue_if pred q)) = s \<and>
         count_empty (snd (dequeue_if pred q)) = Semaphore_signal (count_empty q)"
  using assms dequeue_if_admitted_frame [of pred "q\<lparr>count_full := s\<rparr>"]
  by (simp add: dequeue_if_unfold)

text \<open>One accepting call on a non-empty buffer with an item counted.\<close>

lemma accepting_step:
  assumes "0 < sem_count (count_full q)" and "queue (msg_queue q) \<noteq> []"
  shows "fst (dequeue_if always_true q) =
           (if reads_back q then Returned (Some (next_visible q))
            else Undefined Dangling_Reference)"
    and "queue (msg_queue (snd (dequeue_if always_true q))) = removed_next q"
    and "first_slot (msg_queue (snd (dequeue_if always_true q))) =
           first_slot (msg_queue q) +
           (if queue_manipulator q = QueueManipulatorFIFO then 1 else 0)"
    and "sem_count (count_full (snd (dequeue_if always_true q))) = sem_count (count_full q) - 1"
    and "queue_manipulator (snd (dequeue_if always_true q)) = queue_manipulator q"
    and "queue_type (msg_queue (snd (dequeue_if always_true q))) = queue_type (msg_queue q)"
proof -
  have a: "Semaphore_wait (count_full q) \<noteq> None" "\<not> Queue_empty q"
    using assms by (auto simp: Semaphore_wait_def Queue_empty_def DerivedQueue_empty_def)
  from dequeue_if_accepts [OF a, of always_true]
  show "fst (dequeue_if always_true q) =
           (if reads_back q then Returned (Some (next_visible q))
            else Undefined Dangling_Reference)"
    and "queue (msg_queue (snd (dequeue_if always_true q))) = removed_next q"
    and "first_slot (msg_queue (snd (dequeue_if always_true q))) =
           first_slot (msg_queue q) +
           (if queue_manipulator q = QueueManipulatorFIFO then 1 else 0)"
    by (simp_all add: always_true_def)
  show "sem_count (count_full (snd (dequeue_if always_true q))) = sem_count (count_full q) - 1"
    using assms(1)
      dequeue_if_counters [of q "(count_full q)\<lparr>sem_count := sem_count (count_full q) - 1\<rparr>"
        always_true]
    by (simp add: Semaphore_wait_def)
  show "queue_manipulator (snd (dequeue_if always_true q)) = queue_manipulator q"
    using dequeue_if_frame [of always_true q] by simp
  show "queue_type (msg_queue (snd (dequeue_if always_true q))) = queue_type (msg_queue q)"
    by (rule dequeue_if_queue_type)
qed

text \<open>The buffer after \<open>k\<close> accepting calls, for every container type.\<close>

lemma run_accepting_dequeues_FIFO:
  assumes "queue_manipulator q = QueueManipulatorFIFO"
    and "k \<le> sem_count (count_full q)" and "k \<le> length (queue (msg_queue q))"
  shows "queue (msg_queue (run q (replicate k (Dequeue_if always_true)))) =
           drop k (queue (msg_queue q))"
  using assms
proof (induction k arbitrary: q)
  case 0
  then show ?case by simp
next
  case (Suc k)
  let ?q' = "snd (dequeue_if always_true q)"
  have p: "0 < sem_count (count_full q)" "queue (msg_queue q) \<noteq> []"
    using Suc.prems by auto
  have b: "queue (msg_queue ?q') = tl (queue (msg_queue q))"
    using accepting_step(2) [OF p] Suc.prems(1) by (simp add: removed_next_def)
  have "queue_manipulator ?q' = QueueManipulatorFIFO"
    and "k \<le> sem_count (count_full ?q')" and "k \<le> length (queue (msg_queue ?q'))"
    using Suc.prems b accepting_step(4,5) [OF p] by simp_all
  from Suc.IH [OF this] show ?case
    by (simp add: do_call_Dequeue_if b drop_Suc)
qed

lemma run_accepting_dequeues_LIFO:
  assumes "queue_manipulator q = QueueManipulatorLIFO"
    and "k \<le> sem_count (count_full q)" and "k \<le> length (queue (msg_queue q))"
  shows "queue (msg_queue (run q (replicate k (Dequeue_if always_true)))) =
           take (length (queue (msg_queue q)) - k) (queue (msg_queue q))"
  using assms
proof (induction k arbitrary: q)
  case 0
  then show ?case by simp
next
  case (Suc k)
  let ?q' = "snd (dequeue_if always_true q)"
  have p: "0 < sem_count (count_full q)" "queue (msg_queue q) \<noteq> []"
    using Suc.prems by auto
  have b: "queue (msg_queue ?q') = butlast (queue (msg_queue q))"
    using accepting_step(2) [OF p] Suc.prems(1) by (simp add: removed_next_def)
  have "queue_manipulator ?q' = QueueManipulatorLIFO"
    and "k \<le> sem_count (count_full ?q')" and "k \<le> length (queue (msg_queue ?q'))"
    using Suc.prems b accepting_step(4,5) [OF p] by simp_all
  from Suc.IH [OF this] show ?case
    by (simp add: do_call_Dequeue_if b butlast_conv_take)
qed

text \<open>
  What the \<open>k\<close> calls hand back. Over a \<^verbatim>\<open>std::list\<close>, or with messages that own storage,
  every one of them reads released storage, in either mode.
\<close>

lemma run_accepting_results_released:
  assumes "queue_type (msg_queue q) = Std_list \<or> queue_type (msg_queue q) = Std_deque block True"
    and "k \<le> sem_count (count_full q)" and "k \<le> length (queue (msg_queue q))"
  shows "results q (replicate k (Dequeue_if always_true)) =
           replicate k (Dequeued (Undefined Dangling_Reference))"
  using assms
proof (induction k arbitrary: q)
  case 0
  then show ?case by simp
next
  case (Suc k)
  let ?q' = "snd (dequeue_if always_true q)"
  have p: "0 < sem_count (count_full q)" "queue (msg_queue q) \<noteq> []"
    using Suc.prems by auto
  have "\<not> reads_back q"
    using Suc.prems(1) by (auto simp: reads_back_def)
  then have r: "fst (dequeue_if always_true q) = Undefined Dangling_Reference"
    using accepting_step(1) [OF p] by simp
  have "length (queue (msg_queue ?q')) = length (queue (msg_queue q)) - 1"
    using accepting_step(2) [OF p]
    by (cases "queue_manipulator q") (simp_all add: removed_next_def)
  then have "queue_type (msg_queue ?q') = Std_list \<or>
             queue_type (msg_queue ?q') = Std_deque block True"
    and "k \<le> sem_count (count_full ?q')" and "k \<le> length (queue (msg_queue ?q'))"
    using Suc.prems accepting_step(4,6) [OF p] by simp_all
  from Suc.IH [OF this] show ?case
    by (simp add: do_call_Dequeue_if r)
qed

text \<open>
  Over a \<^verbatim>\<open>std::deque\<close> of messages that own no storage, the calls in LIFO mode hand
  back the messages, last one first.
\<close>

lemma run_accepting_results_LIFO_deque:
  assumes "queue_manipulator q = QueueManipulatorLIFO"
    and "queue_type (msg_queue q) = Std_deque block False"
    and "k \<le> sem_count (count_full q)" and "k \<le> length (queue (msg_queue q))"
  shows "results q (replicate k (Dequeue_if always_true)) =
           map (\<lambda>v. Dequeued (Returned (Some v))) (take k (rev (queue (msg_queue q))))"
  using assms
proof (induction k arbitrary: q)
  case 0
  then show ?case by simp
next
  case (Suc k)
  let ?q' = "snd (dequeue_if always_true q)"
  let ?xs = "queue (msg_queue q)"
  have p: "0 < sem_count (count_full q)" "?xs \<noteq> []"
    using Suc.prems by auto
  have "reads_back q"
    using Suc.prems(1,2) by (simp add: reads_back_def)
  then have r: "fst (dequeue_if always_true q) = Returned (Some (last ?xs))"
    using accepting_step(1) [OF p] Suc.prems(1) by (simp add: next_visible_def)
  have b: "queue (msg_queue ?q') = butlast ?xs"
    using accepting_step(2) [OF p] Suc.prems(1) by (simp add: removed_next_def)
  have "queue_manipulator ?q' = QueueManipulatorLIFO"
    and "queue_type (msg_queue ?q') = Std_deque block False"
    and "k \<le> sem_count (count_full ?q')" and "k \<le> length (queue (msg_queue ?q'))"
    using Suc.prems b accepting_step(4,5,6) [OF p] by simp_all
  from Suc.IH [OF this]
  have "results ?q' (replicate k (Dequeue_if always_true)) =
          map (\<lambda>v. Dequeued (Returned (Some v))) (take k (rev (butlast ?xs)))"
    by (simp add: b)
  moreover from p(2) obtain ys y where xs: "?xs = ys @ [y]"
    by (metis append_butlast_last_id)
  ultimately show ?case
    by (simp add: do_call_Dequeue_if r xs)
qed

text \<open>
  In FIFO mode they hand back the messages in order as long as no removal reaches the
  last slot of a block.
\<close>

lemma run_accepting_results_FIFO_deque:
  assumes "queue_manipulator q = QueueManipulatorFIFO"
    and "queue_type (msg_queue q) = Std_deque block False"
    and "k \<le> sem_count (count_full q)" and "k \<le> length (queue (msg_queue q))"
    and "first_slot (msg_queue q) + k < block"
  shows "results q (replicate k (Dequeue_if always_true)) =
           map (\<lambda>v. Dequeued (Returned (Some v))) (take k (queue (msg_queue q)))"
  using assms
proof (induction k arbitrary: q)
  case 0
  then show ?case by simp
next
  case (Suc k)
  let ?q' = "snd (dequeue_if always_true q)"
  let ?xs = "queue (msg_queue q)"
  have p: "0 < sem_count (count_full q)" "?xs \<noteq> []"
    using Suc.prems by auto
  have "Suc (first_slot (msg_queue q)) mod block \<noteq> 0"
    using Suc.prems(5) by simp
  then have "reads_back q"
    using Suc.prems(1,2) by (simp add: reads_back_def)
  then have r: "fst (dequeue_if always_true q) = Returned (Some (hd ?xs))"
    using accepting_step(1) [OF p] Suc.prems(1) by (simp add: next_visible_def)
  have b: "queue (msg_queue ?q') = tl ?xs"
    using accepting_step(2) [OF p] Suc.prems(1) by (simp add: removed_next_def)
  have "queue_manipulator ?q' = QueueManipulatorFIFO"
    and "queue_type (msg_queue ?q') = Std_deque block False"
    and "k \<le> sem_count (count_full ?q')" and "k \<le> length (queue (msg_queue ?q'))"
    and "first_slot (msg_queue ?q') + k < block"
    using Suc.prems b accepting_step(3,4,5,6) [OF p] by simp_all
  from Suc.IH [OF this]
  have "results ?q' (replicate k (Dequeue_if always_true)) =
          map (\<lambda>v. Dequeued (Returned (Some v))) (take k (tl ?xs))"
    by (simp add: b)
  moreover have "?xs = hd ?xs # tl ?xs"
    using p(2) by simp
  ultimately show ?case
    by (simp add: do_call_Dequeue_if r) (metis take_Suc_Cons list.simps(9))
qed

text \<open>
  From a new queue over an empty container, after enqueuing \<open>ms\<close> (no more than the
  capacity).
\<close>

lemma filled_queue:
  assumes "length ms \<le> cap"
    and "q = run (set_mode md (new_Queue (t, []) (Some cap))) (map Enqueue ms)"
  shows "queue (msg_queue q) = ms \<and> sem_count (count_full q) = length ms \<and>
         queue_type (msg_queue q) = t \<and> first_slot (msg_queue q) = 0 \<and>
         queue_manipulator q =
           (if md = FIFO then QueueManipulatorFIFO else QueueManipulatorLIFO)"
proof -
  let ?q0 = "set_mode md (new_Queue (t, []) (Some cap))"
  have 0: "queue (msg_queue ?q0) = []" "sem_count (count_full ?q0) = 0"
    "queue_type (msg_queue ?q0) = t" "first_slot (msg_queue ?q0) = 0"
    "queue_manipulator ?q0 = (if md = FIFO then QueueManipulatorFIFO else QueueManipulatorLIFO)"
    by (simp_all add: set_mode_def new_Queue_def DerivedQueue_ctor_def)
  have "length ms \<le> sem_count (count_empty ?q0)"
    and "length (queue (msg_queue ?q0)) + length ms \<le> max_size ?q0"
    using assms(1) by (simp_all add: set_mode_def new_Queue_def DerivedQueue_ctor_def)
  from run_enqueues [OF this] show ?thesis
    unfolding assms(2) by (simp add: 0)
qed

text \<open>
  The buffer loses its messages in the order of the mode, for every container type:
  \<open>k\<close> accepting calls leave \<open>drop k ms\<close> in FIFO mode and the first \<open>length ms - k\<close>
  messages in LIFO mode.
\<close>

lemma fifo_removal_order:
  assumes "length ms \<le> cap" and "k \<le> length ms"
    and "q = run (set_mode FIFO (new_Queue (t, []) (Some cap))) (map Enqueue ms)"
  shows "queue (msg_queue (run q (replicate k (Dequeue_if always_true)))) = drop k ms"
  using filled_queue [OF assms(1) assms(3)] run_accepting_dequeues_FIFO [of q k] assms(2)
  by simp

lemma lifo_removal_order:
  assumes "length ms \<le> cap" and "k \<le> length ms"
    and "q = run (set_mode LIFO (new_Queue (t, []) (Some cap))) (map Enqueue ms)"
  shows "queue (msg_queue (run q (replicate k (Dequeue_if always_true)))) =
           take (length ms - k) ms"
  using filled_queue [OF assms(1) assms(3)] run_accepting_dequeues_LIFO [of q k] assms(2)
  by (simp add: FIFO_def LIFO_def)

text \<open>
  What the calls yield: nothing defined over a \<^verbatim>\<open>std::list\<close> or with messages that own
  storage; over a \<^verbatim>\<open>std::deque\<close> of messages that own none, the messages in reverse
  order in LIFO mode, and in order in FIFO mode while the removals stay inside the
  first block.
\<close>

lemma released_storage_yields_nothing:
  assumes "length ms \<le> cap" and "k \<le> length ms"
    and "t = Std_list \<or> t = Std_deque block True"
    and "q = run (set_mode md (new_Queue (t, []) (Some cap))) (map Enqueue ms)"
  shows "results q (replicate k (Dequeue_if always_true)) =
           replicate k (Dequeued (Undefined Dangling_Reference))"
  using filled_queue [OF assms(1) assms(4)] run_accepting_results_released [of q block k]
    assms(2,3)
  by simp

lemma lifo_deque_yields_reverse:
  assumes "length ms \<le> cap" and "k \<le> length ms"
    and "q = run (set_mode LIFO (new_Queue (Std_deque block False, []) (Some cap)))
               (map Enqueue ms)"
  shows "results q (replicate k (Dequeue_if always_true)) =
           map (\<lambda>v. Dequeued (Returned (Some v))) (take k (rev ms))"
  using filled_queue [OF assms(1) assms(3)] run_accepting_results_LIFO_deque [of q block k]
    assms(2)
  by (simp add: FIFO_def LIFO_def)

lemma fifo_deque_yields_in_order:
  assumes "length ms \<le> cap" and "k \<le> length ms" and "k < block"
    and "q = run (set_mode FIFO (new_Queue (Std_deque block False, []) (Some cap)))
               (map Enqueue ms)"
  shows "results q (replicate k (Dequeue_if always_true)) =
           map (\<lambda>v. Dequeued (Returned (Some v))) (take k ms)"
  using filled_queue [OF assms(1) assms(4)] run_accepting_results_FIFO_deque [of q block k]
    assms(2,3)
  by simp

section \<open>The claims\<close>

subsection \<open>dequeue\_if\<close>

text \<open>
  C1. The claim: \<open>dequeue_if\<close> inspects the next-visible message; if the predicate holds
  on it, exactly that message is removed and returned; if the predicate rejects it, the
  buffer is unchanged and the call returns "no match". The code inspects and removes the
  right message and leaves a rejected one alone (\<open>dequeue_if_rejects\<close>,
  \<open>dequeue_if_accepts\<close>, \<open>dequeue_if_always_false_keeps_buffer\<close>), but it builds its
  return value from the reference \<open>m\<close> after \<open>pop()\<close> has destroyed the element that \<open>m\<close>
  refers to. Whether the message comes back depends on the container and the message
  type. In a queue of strings over a \<^verbatim>\<open>std::deque\<close>, holding one message of 48 characters,
  an accepting call in LIFO or in FIFO mode removes the message and then reads the
  destroyed string, whose characters have been released: it does not return the
  message. In a queue of integers over a \<^verbatim>\<open>std::deque\<close> the same calls do return the
  message 7.
\<close>

theorem dequeue_if_accept_reads_removed_element:
  "results (new_Queue (Std_deque 16 True, []) (Some 1))
     [Enqueue first_message, Dequeue_if always_true]
     = [Enqueued (Returned True), Dequeued (Undefined Dangling_Reference)] \<and>
   results (set_mode FIFO (new_Queue (Std_deque 16 True, []) (Some 1)))
     [Enqueue first_message, Dequeue_if always_true]
     = [Enqueued (Returned True), Dequeued (Undefined Dangling_Reference)] \<and>
   results (new_Queue (Std_deque 128 False, []) (Some 1))
     [Enqueue (7::nat), Dequeue_if always_true]
     = [Enqueued (Returned True), Dequeued (Returned (Some 7))] \<and>
   results (set_mode FIFO (new_Queue (Std_deque 128 False, []) (Some 1)))
     [Enqueue (7::nat), Dequeue_if always_true]
     = [Enqueued (Returned True), Dequeued (Returned (Some 7))]"
  by code_simp

subsection \<open>enqueue\<close>

text \<open>
  C2, as amended. For every message and every admitted call, \<open>enqueue\<close> returns true and
  appends the message at the tail of the backing buffer, in both modes, when the buffer
  is not full (its size differs from \<open>max_size\<close>); when the buffer is full it returns
  false and leaves the buffer as it is. Strategy and capacity never change.
\<close>

theorem enqueue_admitted_effect:
  assumes "Semaphore_wait (count_empty q) \<noteq> None"
  shows "fst (enqueue msg q) = Returned (\<not> full q) \<and>
         queue (msg_queue (snd (enqueue msg q))) =
           (if full q then queue (msg_queue q) else queue (msg_queue q) @ [msg]) \<and>
         first_slot (msg_queue (snd (enqueue msg q))) = first_slot (msg_queue q) \<and>
         queue_manipulator (snd (enqueue msg q)) = queue_manipulator q \<and>
         max_size (snd (enqueue msg q)) = max_size q"
proof -
  from assms obtain s where s: "Semaphore_wait (count_empty q) = Some s" by auto
  have f: "full (q\<lparr>count_empty := s\<rparr>) = full q"
    by (simp add: full_def)
  show ?thesis
    using s f by (simp add: enqueue_def Queue_push_def QueueManipulator_push_def
        DerivedQueue_push_def)
qed

theorem enqueue_admitted_effect_witness:
  "Semaphore_wait (count_empty (new_Queue (Std_deque 128 False, []) (Some 2) :: nat Queue)) \<noteq> None \<and>
   fst (enqueue (5::nat) (new_Queue (Std_deque 128 False, []) (Some 2))) = Returned True \<and>
   queue (msg_queue (snd (enqueue (5::nat) (new_Queue (Std_deque 128 False, []) (Some 2))))) = [5]"
proof -
  let ?q = "new_Queue (Std_deque 128 False, []) (Some 2) :: nat Queue"
  have a: "Semaphore_wait (count_empty ?q) \<noteq> None"
    by (simp add: new_Queue_def Semaphore_wait_def)
  have f: "\<not> full ?q"
    by (simp add: full_def new_Queue_def container_defs)
  from enqueue_admitted_effect [OF a, of 5] show ?thesis
    using a f by (simp add: new_Queue_def container_defs)
qed

text \<open>
  C2 as stated fails: with capacity 1, after \<open>enqueue(1)\<close> and a \<open>dequeue_if\<close> that rejects
  the message, the guard admits \<open>enqueue(2)\<close>, which finds the buffer full, returns false
  and appends nothing.
\<close>

theorem enqueue_admitted_returns_false:
  "Semaphore_wait (count_empty
     (run (new_Queue (Std_deque 128 False, []) (Some 1)) [Enqueue (1::nat), Dequeue_if always_false])) \<noteq> None \<and>
   fst (enqueue 2 (run (new_Queue (Std_deque 128 False, []) (Some 1)) [Enqueue (1::nat), Dequeue_if always_false]))
     = Returned False \<and>
   queue (msg_queue (snd (enqueue 2
     (run (new_Queue (Std_deque 128 False, []) (Some 1)) [Enqueue (1::nat), Dequeue_if always_false])))) = [1]"
  by code_simp

subsection \<open>Capacity violations\<close>

text \<open>
  C3, as amended. An admitted \<open>enqueue\<close> that finds the buffer full returns false to its
  caller, and an admitted \<open>dequeue_if\<close> that finds the buffer empty returns "no match"
  to its caller without calling the predicate; both are ordinary return values, and both
  leave the buffer as it is.
\<close>

theorem capacity_violations_return_normally:
  "(Semaphore_wait (count_empty q) \<noteq> None \<and> full q \<longrightarrow>
      fst (enqueue msg q) = Returned False \<and>
      msg_queue (snd (enqueue msg q)) = msg_queue q) \<and>
   (Semaphore_wait (count_full q) \<noteq> None \<and> Queue_empty q \<longrightarrow>
      fst (dequeue_if pred q) = Returned None \<and>
      msg_queue (snd (dequeue_if pred q)) = msg_queue q)"
  using enqueue_on_full [of q msg] dequeue_if_on_empty [of q pred] by blast

theorem capacity_violations_return_normally_witness:
  "Semaphore_wait (count_empty
     (run (new_Queue (Std_deque 128 False, []) (Some 1)) [Enqueue (1::nat), Dequeue_if always_false])) \<noteq> None \<and>
   full (run (new_Queue (Std_deque 128 False, []) (Some 1)) [Enqueue (1::nat), Dequeue_if always_false]) \<and>
   fst (enqueue 2 (run (new_Queue (Std_deque 128 False, []) (Some 1)) [Enqueue (1::nat), Dequeue_if always_false]))
     = Returned False \<and>
   Semaphore_wait (count_full
     ((new_Queue (Std_deque 128 False, []) (Some 1) :: nat Queue)\<lparr>count_full := \<lparr>sem_limit = 1, sem_count = 1\<rparr>\<rparr>)) \<noteq> None \<and>
   Queue_empty ((new_Queue (Std_deque 128 False, []) (Some 1) :: nat Queue)\<lparr>count_full := \<lparr>sem_limit = 1, sem_count = 1\<rparr>\<rparr>) \<and>
   fst (dequeue_if always_true
     ((new_Queue (Std_deque 128 False, []) (Some 1) :: nat Queue)\<lparr>count_full := \<lparr>sem_limit = 1, sem_count = 1\<rparr>\<rparr>))
     = Returned None"
proof -
  let ?q1 = "run (new_Queue (Std_deque 128 False, []) (Some 1)) [Enqueue (1::nat), Dequeue_if always_false]"
  let ?q2 = "(new_Queue (Std_deque 128 False, []) (Some 1) :: nat Queue)\<lparr>count_full := \<lparr>sem_limit = 1, sem_count = 1\<rparr>\<rparr>"
  have a1: "Semaphore_wait (count_empty ?q1) \<noteq> None" by code_simp
  have b1: "full ?q1" by code_simp
  have a2: "Semaphore_wait (count_full ?q2) \<noteq> None" by code_simp
  have b2: "Queue_empty ?q2" by code_simp
  from capacity_violations_return_normally [of ?q1 2 always_true]
       capacity_violations_return_normally [of ?q2 2 always_true]
  show ?thesis using a1 b1 a2 b2 by blast
qed

text \<open>
  C3 as stated fails: with capacity 2, the calls \<open>enqueue(1)\<close>, a rejecting \<open>dequeue_if\<close>,
  \<open>enqueue(2)\<close> leave the buffer full with one free slot counted; the call \<open>enqueue(3)\<close>
  is admitted, finds the buffer full, and reports it by returning false.
\<close>

theorem full_enqueue_returns_false_example:
  "results (new_Queue (Std_deque 128 False, []) (Some 2)) [Enqueue (1::nat), Dequeue_if always_false, Enqueue 2, Enqueue 3]
     = [Enqueued (Returned True), Dequeued (Returned None), Enqueued (Returned True),
        Enqueued (Returned False)] \<and>
   full (run (new_Queue (Std_deque 128 False, []) (Some 2)) [Enqueue (1::nat), Dequeue_if always_false, Enqueue 2]) \<and>
   Semaphore_wait (count_empty
     (run (new_Queue (Std_deque 128 False, []) (Some 2)) [Enqueue (1::nat), Dequeue_if always_false, Enqueue 2])) \<noteq> None"
  by code_simp

subsection \<open>Occupancy\<close>

text \<open>
  C4. Start from a queue with an empty buffer and capacity \<open>max_size q\<close>, in either
  mode, and run any sequence of \<open>enqueue\<close> and \<open>dequeue_if\<close> calls, with any predicates.
  In every state on the way (\<open>states\<close> lists the state before the first call and after
  each call) the occupancy of the backing buffer lies between 0 and the capacity, and no
  call ever removes from an empty container, which is how the occupancy would go below
  zero.
\<close>

theorem occupancy_within_capacity:
  assumes "Queue_empty q" and "s \<in> set (states q calls)"
  shows "0 \<le> DerivedQueue_size (msg_queue s) \<and>
         DerivedQueue_size (msg_queue s) \<le> max_size q \<and>
         Dequeued (Undefined Empty_Container_Access) \<notin> set (results q calls)"
proof -
  have "length (queue (msg_queue q)) \<le> max_size q"
    using assms(1) by (simp add: Queue_empty_def DerivedQueue_empty_def)
  from states_occupancy [OF this assms(2)] show ?thesis
    by (simp add: DerivedQueue_size_def results_no_empty_access)
qed

theorem occupancy_within_capacity_witness:
  "Queue_empty (new_Queue (Std_deque 128 False, []) (Some 1) :: nat Queue) \<and>
   run (new_Queue (Std_deque 128 False, []) (Some 1)) [Enqueue (1::nat), Dequeue_if always_false, Enqueue 2]
     \<in> set (states (new_Queue (Std_deque 128 False, []) (Some 1)) [Enqueue 1, Dequeue_if always_false, Enqueue 2]) \<and>
   DerivedQueue_size
     (msg_queue (run (new_Queue (Std_deque 128 False, []) (Some 1)) [Enqueue (1::nat), Dequeue_if always_false, Enqueue 2]))
     \<le> max_size (new_Queue (Std_deque 128 False, []) (Some 1) :: nat Queue)"
proof -
  let ?q = "new_Queue (Std_deque 128 False, []) (Some 1) :: nat Queue"
  let ?calls = "[Enqueue (1::nat), Dequeue_if always_false, Enqueue 2]"
  have e: "Queue_empty ?q"
    by (simp add: Queue_empty_def new_Queue_def container_defs)
  have m: "run ?q ?calls \<in> set (states ?q ?calls)"
    by simp
  from occupancy_within_capacity [OF e m] show ?thesis
    using e m by simp
qed

subsection \<open>Order of removal\<close>

text \<open>
  C5. The claim: in FIFO mode, enqueuing m1..mN and then calling \<open>dequeue_if\<close> with an
  always-true predicate N times yields m1..mN. The buffer does lose its head at each
  call, for every container (\<open>fifo_removal_order\<close>), but what a call yields is read
  after the removal. In a queue of strings over a \<^verbatim>\<open>std::deque\<close> with capacity 3 and three
  messages of 48 characters, none of the three calls yields its message (first part),
  while the buffer is taken apart in order (second part). In a queue of integers over a
  \<^verbatim>\<open>std::deque\<close> the calls yield 10, 20, 30 (third part; \<open>fifo_deque_yields_in_order\<close>).
\<close>

theorem fifo_order_run:
  "results (set_mode FIFO (new_Queue (Std_deque 16 True, []) (Some 3)))
     [Enqueue first_message, Enqueue second_message, Enqueue third_message,
      Dequeue_if always_true, Dequeue_if always_true, Dequeue_if always_true]
     = [Enqueued (Returned True), Enqueued (Returned True), Enqueued (Returned True),
        Dequeued (Undefined Dangling_Reference), Dequeued (Undefined Dangling_Reference),
        Dequeued (Undefined Dangling_Reference)] \<and>
   map queue (map msg_queue (states (set_mode FIFO (new_Queue (Std_deque 16 True, []) (Some 3)))
     [Enqueue first_message, Enqueue second_message, Enqueue third_message,
      Dequeue_if always_true, Dequeue_if always_true, Dequeue_if always_true]))
     = [[], [first_message], [first_message, second_message],
        [first_message, second_message, third_message],
        [second_message, third_message], [third_message], []] \<and>
   results (set_mode FIFO (new_Queue (Std_deque 128 False, []) (Some 3)))
     [Enqueue (10::nat), Enqueue 20, Enqueue 30,
      Dequeue_if always_true, Dequeue_if always_true, Dequeue_if always_true]
     = [Enqueued (Returned True), Enqueued (Returned True), Enqueued (Returned True),
        Dequeued (Returned (Some 10)), Dequeued (Returned (Some 20)),
        Dequeued (Returned (Some 30))]"
  by code_simp

text \<open>
  C6. The claim: in LIFO mode the same calls yield mN..m1. The buffer loses its tail at
  each call, for every container (\<open>lifo_removal_order\<close>). In a queue of strings over a
  \<^verbatim>\<open>std::deque\<close> with capacity 3 and three messages of 48 characters, none of the three
  calls yields its message; in a queue of integers over a \<^verbatim>\<open>std::deque\<close> the calls yield
  30, 20, 10 (\<open>lifo_deque_yields_reverse\<close>).
\<close>

theorem lifo_order_run:
  "results (new_Queue (Std_deque 16 True, []) (Some 3))
     [Enqueue first_message, Enqueue second_message, Enqueue third_message,
      Dequeue_if always_true, Dequeue_if always_true, Dequeue_if always_true]
     = [Enqueued (Returned True), Enqueued (Returned True), Enqueued (Returned True),
        Dequeued (Undefined Dangling_Reference), Dequeued (Undefined Dangling_Reference),
        Dequeued (Undefined Dangling_Reference)] \<and>
   map queue (map msg_queue (states (new_Queue (Std_deque 16 True, []) (Some 3))
     [Enqueue first_message, Enqueue second_message, Enqueue third_message,
      Dequeue_if always_true, Dequeue_if always_true, Dequeue_if always_true]))
     = [[], [first_message], [first_message, second_message],
        [first_message, second_message, third_message],
        [first_message, second_message], [first_message], []] \<and>
   results (new_Queue (Std_deque 128 False, []) (Some 3))
     [Enqueue (10::nat), Enqueue 20, Enqueue 30,
      Dequeue_if always_true, Dequeue_if always_true, Dequeue_if always_true]
     = [Enqueued (Returned True), Enqueued (Returned True), Enqueued (Returned True),
        Dequeued (Returned (Some 30)), Dequeued (Returned (Some 20)),
        Dequeued (Returned (Some 10))]"
  by code_simp

subsection \<open>Switching the mode\<close>

text \<open>
  C7. For every queue state and every mode value, \<open>set_mode\<close> leaves the backing buffer
  as it is, contents and order (and also the capacity and both counters); what changes
  is the strategy, hence the end that later \<open>pop\<close> and \<open>get\<close> address.
\<close>

theorem set_mode_keeps_buffer:
  "msg_queue (set_mode new_mode q) = msg_queue q \<and>
   max_size (set_mode new_mode q) = max_size q \<and>
   count_full (set_mode new_mode q) = count_full q \<and>
   count_empty (set_mode new_mode q) = count_empty q \<and>
   mode (set_mode FIFO q) = FIFO \<and> mode (set_mode LIFO q) = LIFO"
  by (simp add: set_mode_def mode_def get_mode_def FIFO_def LIFO_def)

subsection \<open>A raising predicate\<close>

text \<open>
  C8. When an admitted \<open>dequeue_if\<close> on a non-empty buffer calls a predicate that raises
  on the next-visible message, the call ends with that same exception, and the buffer,
  the strategy and the capacity are as they were: nothing has been removed or inserted.
\<close>

theorem dequeue_if_predicate_raises:
  assumes "Semaphore_wait (count_full q) \<noteq> None"
    and "\<not> Queue_empty q"
    and "pred (next_visible q) = Inl e"
  shows "fst (dequeue_if pred q) = Threw e \<and>
         msg_queue (snd (dequeue_if pred q)) = msg_queue q \<and>
         queue_manipulator (snd (dequeue_if pred q)) = queue_manipulator q \<and>
         max_size (snd (dequeue_if pred q)) = max_size q"
proof -
  from assms(1) obtain s where s: "Semaphore_wait (count_full q) = Some s" by auto
  let ?q = "q\<lparr>count_full := s\<rparr>"
  have ne: "queue (msg_queue ?q) \<noteq> []"
    using assms(2) by (simp add: Queue_empty_def DerivedQueue_empty_def)
  have "next_visible ?q = next_visible q"
    by (simp add: next_visible_def split: QueueManipulator.splits)
  with assms(3) have "dequeue_if_admitted pred ?q = (Threw e, ?q)"
    using dequeue_if_admitted_threw [OF ne, of pred e] by simp
  with s show ?thesis by (simp add: dequeue_if_def)
qed

theorem dequeue_if_predicate_raises_witness:
  "Semaphore_wait (count_full (run (new_Queue (Std_deque 128 False, []) (Some 2)) [Enqueue (3::nat), Enqueue 4])) \<noteq> None \<and>
   \<not> Queue_empty (run (new_Queue (Std_deque 128 False, []) (Some 2)) [Enqueue (3::nat), Enqueue 4]) \<and>
   raises_on 4 (next_visible (run (new_Queue (Std_deque 128 False, []) (Some 2)) [Enqueue (3::nat), Enqueue 4]))
     = Inl (Exception ''rejected'') \<and>
   fst (dequeue_if (raises_on 4) (run (new_Queue (Std_deque 128 False, []) (Some 2)) [Enqueue (3::nat), Enqueue 4]))
     = Threw (Exception ''rejected'') \<and>
   queue (msg_queue (snd (dequeue_if (raises_on 4)
     (run (new_Queue (Std_deque 128 False, []) (Some 2)) [Enqueue (3::nat), Enqueue 4])))) = [3, 4]"
proof -
  let ?q = "run (new_Queue (Std_deque 128 False, []) (Some 2)) [Enqueue (3::nat), Enqueue 4]"
  have q: "?q = \<lparr>queue_manipulator = QueueManipulatorLIFO,
                 msg_queue = \<lparr>queue_type = Std_deque 128 False, first_slot = 0,
                               queue = [3, 4], retained = Map.empty\<rparr>,
                 max_size = 2,
                 count_full = \<lparr>sem_limit = 2, sem_count = 2\<rparr>,
                 count_empty = \<lparr>sem_limit = 2, sem_count = 0\<rparr>\<rparr>"
    by (simp add: do_call_Enqueue enqueue_def Queue_push_effect new_Queue_def
        Semaphore_wait_def Semaphore_signal_def container_defs)
  have a: "Semaphore_wait (count_full ?q) \<noteq> None"
    unfolding q by (simp add: Semaphore_wait_def)
  have b: "\<not> Queue_empty ?q"
    unfolding q by (simp add: Queue_empty_def container_defs)
  have c: "raises_on 4 (next_visible ?q) = Inl (Exception ''rejected'')"
    unfolding q by (simp add: next_visible_def raises_on_def)
  from dequeue_if_predicate_raises [of ?q "raises_on 4" "Exception ''rejected''", OF a b c] show ?thesis
    using a b c q by simp
qed

subsection \<open>Construction\<close>

text \<open>
  C9. A queue constructed without a capacity argument has capacity 1000. Whatever the
  arguments, the active strategy of a new queue is LIFO, and it is still LIFO after any
  sequence of \<open>enqueue\<close> and \<open>dequeue_if\<close> calls: only \<open>set_mode\<close> changes it.
\<close>

theorem new_Queue_defaults:
  "max_size (new_Queue container None) = 1000 \<and>
   Queue_size (new_Queue container None) = 1000 \<and>
   mode (new_Queue container max_size_opt) = LIFO \<and>
   mode (run (new_Queue container max_size_opt) calls) = LIFO"
  by (simp add: mode_def run_frame) (simp add: new_Queue_def Queue_size_def get_mode_def Let_def)

subsection \<open>Mode values outside the enumeration\<close>

text \<open>
  C10. \<open>set_mode\<close> with a value that is neither FIFO nor LIFO changes nothing at all, and
  the active strategy is one of the two variants in every state: \<open>mode\<close> returns FIFO or
  LIFO, before and after any \<open>set_mode\<close>.
\<close>

theorem set_mode_undefined_value_noop:
  "(new_mode \<noteq> FIFO \<and> new_mode \<noteq> LIFO \<longrightarrow> set_mode new_mode q = q) \<and>
   (mode q = FIFO \<or> mode q = LIFO) \<and>
   (mode (set_mode new_mode q) = FIFO \<or> mode (set_mode new_mode q) = LIFO)"
  by (cases "queue_manipulator q") (simp_all add: set_mode_def mode_def get_mode_def)

theorem set_mode_undefined_value_noop_witness:
  "(2::Mode) \<noteq> FIFO \<and> (2::Mode) \<noteq> LIFO \<and>
   set_mode 2 (new_Queue (Std_deque 128 False, [5::nat]) None) = new_Queue (Std_deque 128 False, [5]) None \<and>
   mode (new_Queue (Std_deque 128 False, [5::nat]) None) = LIFO"
  using set_mode_undefined_value_noop [of 2 "new_Queue (Std_deque 128 False, [5::nat]) None"]
  by (simp add: FIFO_def LIFO_def mode_def get_mode_def new_Queue_def)

end
